theory Spec2Isabelle
  imports Main "HOL-Library.Word"
begin

unbundle bit_operations_syntax

section \<open>Machine types\<close>

text \<open>
  \<open>uint8_t\<close>, \<open>uint16_t\<close> and \<open>uint32_t\<close> are words of that width. \<open>size_t\<close> cursors and
  capacities are natural numbers: every increment in the three classes is guarded by a
  comparison against a larger \<open>size_t\<close> value (\<open>head_ < capacity_\<close>, \<open>tail_ < head_\<close>), so no
  addition can wrap. The one \<open>size_t\<close> subtraction that is not guarded,
  \<open>head_ - headerSize_\<close> in \<open>MessageBuffer::finalizeMessage\<close>, has its wrap-around
  written out there.

  The byte array behind \<open>data_\<close> belongs to the caller; it is modelled as the list of its
  bytes. The declared capacity is a field of its own, as in the source, and
  \<open>capacity \<le> length data\<close> is the caller's contract under which every access the code
  makes is inside the array.
\<close>

type_synonym u8 = "8 word"
type_synonym u16 = "16 word"
type_synonym u32 = "32 word"

section \<open>ByteBuffer (byte\_buffer.h)\<close>

record ByteBuffer =
  bb_data :: "u8 list"
  bb_capacity :: nat
  bb_head :: nat
  bb_tail :: nat

text \<open>The constructor: both cursors start at 0.\<close>

definition ByteBuffer_new :: "u8 list \<Rightarrow> nat \<Rightarrow> ByteBuffer" where
  "ByteBuffer_new buffer capacity =
     \<lparr>bb_data = buffer, bb_capacity = capacity, bb_head = 0, bb_tail = 0\<rparr>"

definition bb_resetWrite :: "ByteBuffer \<Rightarrow> ByteBuffer" where
  "bb_resetWrite b = b\<lparr>bb_head := 0\<rparr>"

definition bb_writePosition :: "ByteBuffer \<Rightarrow> nat" where
  "bb_writePosition b = bb_head b"

definition bb_writeRemaining :: "ByteBuffer \<Rightarrow> nat" where
  "bb_writeRemaining b =
     (if bb_head b < bb_capacity b then bb_capacity b - bb_head b else 0)"

definition bb_resetRead :: "ByteBuffer \<Rightarrow> ByteBuffer" where
  "bb_resetRead b = b\<lparr>bb_tail := 0\<rparr>"

definition bb_readPosition :: "ByteBuffer \<Rightarrow> nat" where
  "bb_readPosition b = bb_tail b"

definition bb_readRemaining :: "ByteBuffer \<Rightarrow> nat" where
  "bb_readRemaining b =
     (if bb_tail b < bb_head b then bb_head b - bb_tail b else 0)"

definition bb_capacity_of :: "ByteBuffer \<Rightarrow> nat" where
  "bb_capacity_of b = bb_capacity b"

text \<open>
  A reader returns \<open>None\<close> for \<open>false\<close> (the out parameter is not assigned) and
  \<open>Some v\<close> for \<open>true\<close> with \<open>out = v\<close>; a writer returns its \<open>bool\<close>. Both return the
  buffer after the call.
\<close>

definition bb_readUInt8 :: "ByteBuffer \<Rightarrow> u8 option \<times> ByteBuffer" where
  "bb_readUInt8 b =
     (if bb_readRemaining b < 1 then (None, b)
      else (Some (bb_data b ! bb_tail b), b\<lparr>bb_tail := bb_tail b + 1\<rparr>))"

definition bb_writeUInt8 :: "u8 \<Rightarrow> ByteBuffer \<Rightarrow> bool \<times> ByteBuffer" where
  "bb_writeUInt8 v b =
     (if bb_writeRemaining b < 1 then (False, b)
      else (True, b\<lparr>bb_data := (bb_data b)[bb_head b := v], bb_head := bb_head b + 1\<rparr>))"

definition bb_readUInt16LE :: "ByteBuffer \<Rightarrow> u16 option \<times> ByteBuffer" where
  "bb_readUInt16LE b =
     (if bb_readRemaining b < 2 then (None, b)
      else (Some (ucast (bb_data b ! bb_tail b)
                  OR push_bit 8 (ucast (bb_data b ! (bb_tail b + 1)))),
            b\<lparr>bb_tail := bb_tail b + 2\<rparr>))"

definition bb_readUInt16BE :: "ByteBuffer \<Rightarrow> u16 option \<times> ByteBuffer" where
  "bb_readUInt16BE b =
     (if bb_readRemaining b < 2 then (None, b)
      else (Some (push_bit 8 (ucast (bb_data b ! bb_tail b))
                  OR ucast (bb_data b ! (bb_tail b + 1))),
            b\<lparr>bb_tail := bb_tail b + 2\<rparr>))"

definition bb_writeUInt16LE :: "u16 \<Rightarrow> ByteBuffer \<Rightarrow> bool \<times> ByteBuffer" where
  "bb_writeUInt16LE v b =
     (if bb_writeRemaining b < 2 then (False, b)
      else (True,
            b\<lparr>bb_data := (bb_data b)
                   [bb_head b := ucast (v AND 0xFF),
                    bb_head b + 1 := ucast (drop_bit 8 v AND 0xFF)],
              bb_head := bb_head b + 2\<rparr>))"

definition bb_writeUInt16BE :: "u16 \<Rightarrow> ByteBuffer \<Rightarrow> bool \<times> ByteBuffer" where
  "bb_writeUInt16BE v b =
     (if bb_writeRemaining b < 2 then (False, b)
      else (True,
            b\<lparr>bb_data := (bb_data b)
                   [bb_head b := ucast (drop_bit 8 v AND 0xFF),
                    bb_head b + 1 := ucast (v AND 0xFF)],
              bb_head := bb_head b + 2\<rparr>))"

definition bb_readUInt32LE :: "ByteBuffer \<Rightarrow> u32 option \<times> ByteBuffer" where
  "bb_readUInt32LE b =
     (if bb_readRemaining b < 4 then (None, b)
      else (Some (ucast (bb_data b ! bb_tail b)
                  OR push_bit 8 (ucast (bb_data b ! (bb_tail b + 1)))
                  OR push_bit 16 (ucast (bb_data b ! (bb_tail b + 2)))
                  OR push_bit 24 (ucast (bb_data b ! (bb_tail b + 3)))),
            b\<lparr>bb_tail := bb_tail b + 4\<rparr>))"

definition bb_readUInt32BE :: "ByteBuffer \<Rightarrow> u32 option \<times> ByteBuffer" where
  "bb_readUInt32BE b =
     (if bb_readRemaining b < 4 then (None, b)
      else (Some (push_bit 24 (ucast (bb_data b ! bb_tail b))
                  OR push_bit 16 (ucast (bb_data b ! (bb_tail b + 1)))
                  OR push_bit 8 (ucast (bb_data b ! (bb_tail b + 2)))
                  OR ucast (bb_data b ! (bb_tail b + 3))),
            b\<lparr>bb_tail := bb_tail b + 4\<rparr>))"

definition bb_writeUInt32LE :: "u32 \<Rightarrow> ByteBuffer \<Rightarrow> bool \<times> ByteBuffer" where
  "bb_writeUInt32LE v b =
     (if bb_writeRemaining b < 4 then (False, b)
      else (True,
            b\<lparr>bb_data := (bb_data b)
                   [bb_head b := ucast (v AND 0xFF),
                    bb_head b + 1 := ucast (drop_bit 8 v AND 0xFF),
                    bb_head b + 2 := ucast (drop_bit 16 v AND 0xFF),
                    bb_head b + 3 := ucast (drop_bit 24 v AND 0xFF)],
              bb_head := bb_head b + 4\<rparr>))"

definition bb_writeUInt32BE :: "u32 \<Rightarrow> ByteBuffer \<Rightarrow> bool \<times> ByteBuffer" where
  "bb_writeUInt32BE v b =
     (if bb_writeRemaining b < 4 then (False, b)
      else (True,
            b\<lparr>bb_data := (bb_data b)
                   [bb_head b := ucast (drop_bit 24 v AND 0xFF),
                    bb_head b + 1 := ucast (drop_bit 16 v AND 0xFF),
                    bb_head b + 2 := ucast (drop_bit 8 v AND 0xFF),
                    bb_head b + 3 := ucast (v AND 0xFF)],
              bb_head := bb_head b + 4\<rparr>))"

text \<open>
  Call sequences: one constructor per public operation, \<open>bb_step\<close> performs the call
  and keeps the buffer (the returned value is dropped), \<open>bb_run\<close> performs a sequence of
  calls from left to right.
\<close>

datatype bb_op =
    ResetWrite | ResetRead
  | ReadUInt8 | WriteUInt8 u8
  | ReadUInt16LE | ReadUInt16BE | WriteUInt16LE u16 | WriteUInt16BE u16
  | ReadUInt32LE | ReadUInt32BE | WriteUInt32LE u32 | WriteUInt32BE u32

fun bb_step :: "bb_op \<Rightarrow> ByteBuffer \<Rightarrow> ByteBuffer" where
  "bb_step ResetWrite b = bb_resetWrite b"
| "bb_step ResetRead b = bb_resetRead b"
| "bb_step ReadUInt8 b = snd (bb_readUInt8 b)"
| "bb_step (WriteUInt8 v) b = snd (bb_writeUInt8 v b)"
| "bb_step ReadUInt16LE b = snd (bb_readUInt16LE b)"
| "bb_step ReadUInt16BE b = snd (bb_readUInt16BE b)"
| "bb_step (WriteUInt16LE v) b = snd (bb_writeUInt16LE v b)"
| "bb_step (WriteUInt16BE v) b = snd (bb_writeUInt16BE v b)"
| "bb_step ReadUInt32LE b = snd (bb_readUInt32LE b)"
| "bb_step ReadUInt32BE b = snd (bb_readUInt32BE b)"
| "bb_step (WriteUInt32LE v) b = snd (bb_writeUInt32LE v b)"
| "bb_step (WriteUInt32BE v) b = snd (bb_writeUInt32BE v b)"

fun bb_run :: "bb_op list \<Rightarrow> ByteBuffer \<Rightarrow> ByteBuffer" where
  "bb_run [] b = b"
| "bb_run (x # xs) b = bb_run xs (bb_step x b)"

text \<open>
  The cursor invariant as the specification words it:
  \<open>0 \<le> readCursor \<le> writeCursor \<le> capacity\<close> (the first inequality is the type).
\<close>

definition bb_cursor_invariant :: "ByteBuffer \<Rightarrow> bool" where
  "bb_cursor_invariant b \<longleftrightarrow>
     bb_readPosition b \<le> bb_writePosition b \<and> bb_writePosition b \<le> bb_capacity_of b"

section \<open>MessageBuffer (message\_buffer.h)\<close>

record MessageBuffer =
  mb_data :: "u8 list"
  mb_capacity :: nat
  mb_head :: nat
  mb_tail :: nat

definition headerSize :: nat where
  "headerSize = 2"

text \<open>
  Subtraction on \<open>size_t\<close> wraps around when the subtrahend is the larger value. The
  width is the platform's; 64 bits here.
\<close>

definition size_t_sub :: "nat \<Rightarrow> nat \<Rightarrow> nat" where
  "size_t_sub a b = (if b \<le> a then a - b else 2 ^ 64 - (b - a))"

definition MessageBuffer_new :: "u8 list \<Rightarrow> nat \<Rightarrow> MessageBuffer" where
  "MessageBuffer_new buffer capacity =
     \<lparr>mb_data = buffer, mb_capacity = capacity, mb_head = 0, mb_tail = 0\<rparr>"

definition mb_beginMessage :: "u8 \<Rightarrow> MessageBuffer \<Rightarrow> bool \<times> MessageBuffer" where
  "mb_beginMessage ty m =
     (if mb_capacity m < headerSize then (False, m)
      else (True, m\<lparr>mb_head := headerSize, mb_tail := 0,
                     mb_data := (mb_data m)[0 := ty, 1 := 0]\<rparr>))"

definition mb_writeByte :: "u8 \<Rightarrow> MessageBuffer \<Rightarrow> bool \<times> MessageBuffer" where
  "mb_writeByte v m =
     (if mb_head m \<ge> mb_capacity m then (False, m)
      else (True, m\<lparr>mb_data := (mb_data m)[mb_head m := v], mb_head := mb_head m + 1\<rparr>))"

definition mb_finalizeMessage :: "MessageBuffer \<Rightarrow> MessageBuffer" where
  "mb_finalizeMessage m =
     (let payloadLength = size_t_sub (mb_head m) headerSize;
          payloadLength = (if payloadLength > 255 then 255 else payloadLength)
      in m\<lparr>mb_data := (mb_data m)[1 := of_nat payloadLength]\<rparr>)"

text \<open>\<open>data()\<close> returns the array pointer; \<open>size()\<close> says how many of its bytes to send.\<close>

definition mb_data_of :: "MessageBuffer \<Rightarrow> u8 list" where
  "mb_data_of m = mb_data m"

definition mb_size :: "MessageBuffer \<Rightarrow> nat" where
  "mb_size m = mb_head m"

definition mb_beginRead :: "nat \<Rightarrow> MessageBuffer \<Rightarrow> bool \<times> MessageBuffer" where
  "mb_beginRead sz m =
     (if sz < headerSize \<or> sz > mb_capacity m then (False, m)
      else (True, m\<lparr>mb_head := sz, mb_tail := headerSize\<rparr>))"

definition mb_messageType :: "MessageBuffer \<Rightarrow> u8" where
  "mb_messageType m = mb_data m ! 0"

definition mb_payloadLength :: "MessageBuffer \<Rightarrow> u8" where
  "mb_payloadLength m = mb_data m ! 1"

definition mb_readByte :: "MessageBuffer \<Rightarrow> u8 option \<times> MessageBuffer" where
  "mb_readByte m =
     (if mb_tail m \<ge> mb_head m then (None, m)
      else (Some (mb_data m ! mb_tail m), m\<lparr>mb_tail := mb_tail m + 1\<rparr>))"

definition mb_readRemaining :: "MessageBuffer \<Rightarrow> nat" where
  "mb_readRemaining m =
     (let payloadEnd = headerSize + unat (mb_payloadLength m)
      in if mb_tail m < payloadEnd then payloadEnd - mb_tail m else 0)"

text \<open>
  Repeated calls: \<open>mb_writeBytes vs\<close> calls \<open>writeByte\<close> once per element of \<open>vs\<close>,
  \<open>mb_readBytes n\<close> calls \<open>readByte\<close> \<open>n\<close> times; both collect what the calls return.
\<close>

fun mb_writeBytes :: "u8 list \<Rightarrow> MessageBuffer \<Rightarrow> bool list \<times> MessageBuffer" where
  "mb_writeBytes [] m = ([], m)"
| "mb_writeBytes (v # vs) m =
     (let (ok, m1) = mb_writeByte v m; (oks, m2) = mb_writeBytes vs m1
      in (ok # oks, m2))"

fun mb_readBytes :: "nat \<Rightarrow> MessageBuffer \<Rightarrow> u8 option list \<times> MessageBuffer" where
  "mb_readBytes 0 m = ([], m)"
| "mb_readBytes (Suc n) m =
     (let (r, m1) = mb_readByte m; (rs, m2) = mb_readBytes n m1
      in (r # rs, m2))"

text \<open>
  The Writing state: a message was begun (the header is reserved) and the write cursor
  has not left the array. \<open>beginMessage\<close> establishes it and \<open>writeByte\<close> keeps it.
\<close>

definition mb_writing :: "MessageBuffer \<Rightarrow> bool" where
  "mb_writing m \<longleftrightarrow>
     headerSize \<le> mb_head m \<and> mb_head m \<le> mb_capacity m
     \<and> mb_capacity m \<le> length (mb_data m)"

section \<open>RingBuffer (ring\_buffer.h)\<close>

text \<open>
  The template parameter \<open>N\<close> is the first argument of every operation. The two
  overloads of \<open>push\<close> have the same body (one copies, one moves its argument into the
  slot) and are one function here. \<open>pop\<close> moves the slot's value out; the model leaves
  the old value in the slot, which is outside the live window from then on.
\<close>

record 'a RingBuffer =
  rb_buf :: "'a list"
  rb_head :: nat
  rb_tail :: nat
  rb_count :: nat

text \<open>The default constructor; \<open>slots\<close> is whatever the \<open>N\<close> array elements hold at first.\<close>

definition RingBuffer_new :: "'a list \<Rightarrow> 'a RingBuffer" where
  "RingBuffer_new slots = \<lparr>rb_buf = slots, rb_head = 0, rb_tail = 0, rb_count = 0\<rparr>"

definition rb_push :: "nat \<Rightarrow> 'a \<Rightarrow> 'a RingBuffer \<Rightarrow> bool \<times> 'a RingBuffer" where
  "rb_push N v r =
     (if rb_count r = N then (False, r)
      else (True, r\<lparr>rb_buf := (rb_buf r)[rb_head r := v],
                     rb_head := (rb_head r + 1) mod N,
                     rb_count := rb_count r + 1\<rparr>))"

definition rb_pop :: "nat \<Rightarrow> 'a RingBuffer \<Rightarrow> 'a option \<times> 'a RingBuffer" where
  "rb_pop N r =
     (if rb_count r = 0 then (None, r)
      else (Some (rb_buf r ! rb_tail r),
            r\<lparr>rb_tail := (rb_tail r + 1) mod N, rb_count := rb_count r - 1\<rparr>))"

definition rb_size :: "'a RingBuffer \<Rightarrow> nat" where
  "rb_size r = rb_count r"

definition rb_empty :: "'a RingBuffer \<Rightarrow> bool" where
  "rb_empty r \<longleftrightarrow> rb_count r = 0"

definition rb_full :: "nat \<Rightarrow> 'a RingBuffer \<Rightarrow> bool" where
  "rb_full N r \<longleftrightarrow> rb_count r = N"

definition rb_capacity :: "nat \<Rightarrow> 'a RingBuffer \<Rightarrow> nat" where
  "rb_capacity N r = N"

definition rb_clear :: "'a RingBuffer \<Rightarrow> 'a RingBuffer" where
  "rb_clear r = r\<lparr>rb_head := 0, rb_tail := 0, rb_count := 0\<rparr>"

text \<open>
  The state invariant of a ring buffer of capacity \<open>N\<close>, and the queue it holds: the
  \<open>count\<close> slots from \<open>tail\<close> on, indices taken modulo \<open>N\<close>, oldest first.
\<close>

definition rb_inv :: "nat \<Rightarrow> 'a RingBuffer \<Rightarrow> bool" where
  "rb_inv N r \<longleftrightarrow>
     length (rb_buf r) = N \<and> rb_count r \<le> N \<and> rb_tail r < max 1 N
     \<and> rb_head r = (rb_tail r + rb_count r) mod N"

definition rb_contents :: "nat \<Rightarrow> 'a RingBuffer \<Rightarrow> 'a list" where
  "rb_contents N r = map (\<lambda>i. rb_buf r ! ((rb_tail r + i) mod N)) [0..<rb_count r]"

text \<open>Sequences of pushes and pops, with what each call returns.\<close>

datatype 'a rb_op = Push 'a | Pop

datatype 'a rb_result = Pushed bool | Popped "'a option"

fun rb_run :: "nat \<Rightarrow> 'a rb_op list \<Rightarrow> 'a RingBuffer \<Rightarrow> 'a rb_result list \<times> 'a RingBuffer" where
  "rb_run N [] r = ([], r)"
| "rb_run N (Push v # ops) r =
     (let (ok, r1) = rb_push N v r; (res, r2) = rb_run N ops r1
      in (Pushed ok # res, r2))"
| "rb_run N (Pop # ops) r =
     (let (out, r1) = rb_pop N r; (res, r2) = rb_run N ops r1
      in (Popped out # res, r2))"

text \<open>
  The bounded FIFO queue of the specification, on plain lists: a push appends at the
  back iff fewer than \<open>N\<close> elements are held, a pop takes the front element iff there is
  one; a failing call changes nothing.
\<close>

fun queue_run :: "nat \<Rightarrow> 'a rb_op list \<Rightarrow> 'a list \<Rightarrow> 'a rb_result list \<times> 'a list" where
  "queue_run N [] q = ([], q)"
| "queue_run N (Push v # ops) q =
     (if length q < N
      then (let (res, q') = queue_run N ops (q @ [v]) in (Pushed True # res, q'))
      else (let (res, q') = queue_run N ops q in (Pushed False # res, q')))"
| "queue_run N (Pop # ops) q =
     (case q of
        [] \<Rightarrow> (let (res, q') = queue_run N ops [] in (Popped None # res, q'))
      | x # q1 \<Rightarrow> (let (res, q') = queue_run N ops q1 in (Popped (Some x) # res, q')))"

section \<open>ByteBuffer: auxiliary facts\<close>

lemmas bb_defs =
  bb_readRemaining_def bb_writeRemaining_def bb_readPosition_def bb_writePosition_def
  bb_capacity_of_def bb_resetRead_def bb_resetWrite_def
  bb_readUInt8_def bb_writeUInt8_def
  bb_readUInt16LE_def bb_readUInt16BE_def bb_writeUInt16LE_def bb_writeUInt16BE_def
  bb_readUInt32LE_def bb_readUInt32BE_def bb_writeUInt32LE_def bb_writeUInt32BE_def

text \<open>Neither cursor ever passes the capacity, whatever is called.\<close>

lemma bb_step_capacity: "bb_capacity (bb_step x b) = bb_capacity b"
  by (cases x) (auto simp: bb_defs)

lemma bb_step_bounds:
  assumes "bb_head b \<le> bb_capacity b" and "bb_tail b \<le> bb_capacity b"
  shows "bb_head (bb_step x b) \<le> bb_capacity b \<and> bb_tail (bb_step x b) \<le> bb_capacity b"
  using assms by (cases x) (auto simp: bb_defs)

lemma bb_run_capacity: "bb_capacity (bb_run xs b) = bb_capacity b"
  by (induction xs arbitrary: b) (simp_all add: bb_step_capacity)

lemma bb_run_bounds:
  assumes "bb_head b \<le> bb_capacity b" and "bb_tail b \<le> bb_capacity b"
  shows "bb_head (bb_run xs b) \<le> bb_capacity b \<and> bb_tail (bb_run xs b) \<le> bb_capacity b"
  using assms
proof (induction xs arbitrary: b)
  case Nil
  then show ?case by simp
next
  case (Cons x xs)
  have "bb_head (bb_step x b) \<le> bb_capacity (bb_step x b)"
    and "bb_tail (bb_step x b) \<le> bb_capacity (bb_step x b)"
    using bb_step_bounds [OF Cons.prems, of x] by (simp_all add: bb_step_capacity)
  from Cons.IH [OF this] show ?case by (simp add: bb_step_capacity)
qed

lemma bb_step_invariant:
  assumes "bb_cursor_invariant b" and "x \<noteq> ResetWrite \<or> bb_readPosition b = 0"
  shows "bb_cursor_invariant (bb_step x b)"
  using assms by (cases x) (auto simp: bb_cursor_invariant_def bb_defs)

lemma bb_run_invariant:
  assumes "bb_cursor_invariant b" and "ResetWrite \<notin> set xs"
  shows "bb_cursor_invariant (bb_run xs b)"
  using assms
proof (induction xs arbitrary: b)
  case Nil
  then show ?case by simp
next
  case (Cons x xs)
  then have "bb_cursor_invariant (bb_step x b)"
    by (intro bb_step_invariant) auto
  with Cons show ?case by simp
qed

text \<open>No call changes the array's length, so the caller's contract is kept.\<close>

lemma bb_step_in_range:
  assumes "bb_capacity b \<le> length (bb_data b)"
  shows "bb_capacity (bb_step x b) \<le> length (bb_data (bb_step x b))"
  using assms by (cases x) (auto simp: bb_defs)

text \<open>Consecutive element updates, as one splice into the list.\<close>

lemma list_update_splice:
  assumes "h + length bs < length xs"
  shows "(take h xs @ bs @ drop (h + length bs) xs)[h + length bs := a]
           = take h xs @ (bs @ [a]) @ drop (h + length (bs @ [a])) xs"
  using assms
  by (simp add: list_update_append upd_conv_take_nth_drop [of 0] Cons_nth_drop_Suc [symmetric])

lemma list_update2_splice:
  assumes "h + 2 \<le> length xs"
  shows "xs[h := a, h + 1 := b] = take h xs @ [a, b] @ drop (h + 2) xs"
  using assms list_update_splice [of h "[]" xs a] list_update_splice [of h "[a]" xs b]
  by simp

lemma list_update4_splice:
  assumes "h + 4 \<le> length xs"
  shows "xs[h := a, h + 1 := b, h + 2 := c, h + 3 := d]
           = take h xs @ [a, b, c, d] @ drop (h + 4) xs"
  using assms list_update_splice [of h "[]" xs a] list_update_splice [of h "[a]" xs b]
    list_update_splice [of h "[a, b]" xs c] list_update_splice [of h "[a, b, c]" xs d]
  by (simp add: eval_nat_numeral)

text \<open>Masking with \<open>0xFF\<close> before narrowing to a byte changes nothing.\<close>

lemma word_FF_mask: "(0xFF :: 'a::len word) = mask 8"
  by (simp add: mask_eq_exp_minus_1)

lemma ucast_and_FF_16: "(ucast (v AND 0xFF :: u16) :: u8) = ucast v"
  unfolding word_FF_mask by (rule bit_word_eqI) (auto simp: bit_simps)

lemma ucast_and_FF_32: "(ucast (v AND 0xFF :: u32) :: u8) = ucast v"
  unfolding word_FF_mask by (rule bit_word_eqI) (auto simp: bit_simps)

text \<open>Reassembling a value from its bytes, in either order.\<close>

lemma bytes16_LE:
  "(ucast (ucast (v :: u16) :: u8) :: u16)
     OR push_bit 8 (ucast (ucast (drop_bit 8 v) :: u8)) = v"
  by (rule bit_word_eqI) (auto simp: bit_simps)

lemma bytes16_BE:
  "push_bit 8 (ucast (ucast (drop_bit 8 v) :: u8))
     OR (ucast (ucast (v :: u16) :: u8) :: u16) = v"
  by (rule bit_word_eqI) (auto simp: bit_simps)

lemma bytes32_LE:
  "(ucast (ucast (v :: u32) :: u8) :: u32)
     OR push_bit 8 (ucast (ucast (drop_bit 8 v) :: u8))
     OR push_bit 16 (ucast (ucast (drop_bit 16 v) :: u8))
     OR push_bit 24 (ucast (ucast (drop_bit 24 v) :: u8)) = v"
proof (rule bit_word_eqI)
  fix n
  assume "n < LENGTH(32)"
  then show "bit (ucast (ucast v :: u8)
       OR push_bit 8 (ucast (ucast (drop_bit 8 v) :: u8))
       OR push_bit 16 (ucast (ucast (drop_bit 16 v) :: u8))
       OR push_bit 24 (ucast (ucast (drop_bit 24 v) :: u8)) :: u32) n = bit v n"
    by (cases "n < 8"; cases "n < 16"; cases "n < 24") (auto simp: bit_simps)
qed

lemma bytes32_BE:
  "push_bit 24 (ucast (ucast (drop_bit 24 v) :: u8))
     OR push_bit 16 (ucast (ucast (drop_bit 16 v) :: u8))
     OR push_bit 8 (ucast (ucast (drop_bit 8 v) :: u8))
     OR (ucast (ucast (v :: u32) :: u8) :: u32) = v"
proof (rule bit_word_eqI)
  fix n
  assume "n < LENGTH(32)"
  then show "bit (push_bit 24 (ucast (ucast (drop_bit 24 v) :: u8))
       OR push_bit 16 (ucast (ucast (drop_bit 16 v) :: u8))
       OR push_bit 8 (ucast (ucast (drop_bit 8 v) :: u8))
       OR ucast (ucast v :: u8) :: u32) n = bit v n"
    by (cases "n < 8"; cases "n < 16"; cases "n < 24") (auto simp: bit_simps)
qed

section \<open>ByteBuffer: reset semantics\<close>

text \<open>
  C8. In every ByteBuffer state (so in every reachable one): right after \<open>resetRead()\<close>,
  \<open>readRemaining()\<close> equals \<open>writePosition()\<close>; right after \<open>resetWrite()\<close>,
  \<open>writeRemaining()\<close> equals \<open>capacity()\<close> and \<open>readRemaining()\<close> is 0.
\<close>

theorem bb_reset_semantics:
  "bb_readRemaining (bb_resetRead b) = bb_writePosition (bb_resetRead b)
   \<and> bb_writeRemaining (bb_resetWrite b) = bb_capacity_of (bb_resetWrite b)
   \<and> bb_readRemaining (bb_resetWrite b) = 0"
  by (simp add: bb_readRemaining_def bb_resetRead_def bb_writePosition_def
      bb_writeRemaining_def bb_resetWrite_def bb_capacity_of_def)

section \<open>ByteBuffer: the cursor invariant\<close>

text \<open>
  C1, as the specification states it: after every call of every sequence of public
  operations, \<open>0 \<le> readPosition() \<le> writePosition() \<le> capacity()\<close>, also right after
  \<open>resetWrite()\<close> with a nonzero read position. The code does not keep the middle
  inequality: \<open>resetWrite()\<close> sets the write cursor to 0 and leaves the read cursor where
  it is. On an 8-byte buffer, after writing one byte, reading it and calling
  \<open>resetWrite()\<close>, the read position is 1 and the write position is 0.
\<close>

theorem bb_cursor_invariant_counterexample:
  "\<not> bb_cursor_invariant
       (bb_run [WriteUInt8 0xAA, ReadUInt8, ResetWrite] (ByteBuffer_new [0, 0, 0, 0, 0, 0, 0, 0] 8))"
  by (simp add: bb_cursor_invariant_def bb_defs ByteBuffer_new_def)

text \<open>
  C1, amended. For every buffer and every sequence of public operations from the
  constructor on, after every call \<open>readPosition() \<le> capacity()\<close> and
  \<open>writePosition() \<le> capacity()\<close>. The full invariant
  \<open>readPosition() \<le> writePosition() \<le> capacity()\<close> holds after every sequence without
  \<open>resetWrite()\<close>, and every single call keeps it, \<open>resetWrite()\<close> included when it is
  called with \<open>readPosition() = 0\<close>. \<open>resetWrite()\<close> itself sets the write position to 0
  and leaves the read position unchanged.
\<close>

theorem bb_cursor_bounds:
  "bb_readPosition (bb_run ops (ByteBuffer_new d c)) \<le> bb_capacity_of (bb_run ops (ByteBuffer_new d c))
   \<and> bb_writePosition (bb_run ops (ByteBuffer_new d c)) \<le> bb_capacity_of (bb_run ops (ByteBuffer_new d c))
   \<and> (ResetWrite \<notin> set ops \<longrightarrow> bb_cursor_invariant (bb_run ops (ByteBuffer_new d c)))
   \<and> (bb_cursor_invariant b \<and> (x \<noteq> ResetWrite \<or> bb_readPosition b = 0)
        \<longrightarrow> bb_cursor_invariant (bb_step x b))
   \<and> bb_writePosition (bb_resetWrite b) = 0
   \<and> bb_readPosition (bb_resetWrite b) = bb_readPosition b"
proof -
  let ?b0 = "ByteBuffer_new d c"
  have init: "bb_head ?b0 \<le> bb_capacity ?b0" "bb_tail ?b0 \<le> bb_capacity ?b0"
    by (simp_all add: ByteBuffer_new_def)
  have inv0: "bb_cursor_invariant ?b0"
    by (simp add: bb_cursor_invariant_def bb_defs ByteBuffer_new_def)
  from bb_run_bounds [OF init, of ops]
  have "bb_readPosition (bb_run ops ?b0) \<le> bb_capacity_of (bb_run ops ?b0)"
    and "bb_writePosition (bb_run ops ?b0) \<le> bb_capacity_of (bb_run ops ?b0)"
    by (simp_all add: bb_readPosition_def bb_writePosition_def bb_capacity_of_def bb_run_capacity)
  moreover have "ResetWrite \<notin> set ops \<longrightarrow> bb_cursor_invariant (bb_run ops ?b0)"
    using bb_run_invariant [OF inv0] by blast
  moreover have "bb_cursor_invariant b \<and> (x \<noteq> ResetWrite \<or> bb_readPosition b = 0)
        \<longrightarrow> bb_cursor_invariant (bb_step x b)"
    using bb_step_invariant by blast
  moreover have "bb_writePosition (bb_resetWrite b) = 0"
    and "bb_readPosition (bb_resetWrite b) = bb_readPosition b"
    by (simp_all add: bb_defs)
  ultimately show ?thesis by blast
qed

theorem bb_cursor_bounds_witness:
  "bb_readPosition (bb_run [WriteUInt16LE 0x1234, ReadUInt8] (ByteBuffer_new [0, 0, 0, 0] 4)) \<le> 4
   \<and> bb_writePosition (bb_run [WriteUInt16LE 0x1234, ReadUInt8] (ByteBuffer_new [0, 0, 0, 0] 4)) \<le> 4
   \<and> ResetWrite \<notin> set [WriteUInt16LE 0x1234, ReadUInt8]
   \<and> bb_cursor_invariant (bb_run [WriteUInt16LE 0x1234, ReadUInt8] (ByteBuffer_new [0, 0, 0, 0] 4))
   \<and> bb_cursor_invariant (bb_step (WriteUInt8 7)
         (bb_run [WriteUInt16LE 0x1234, ReadUInt8] (ByteBuffer_new [0, 0, 0, 0] 4)))"
  using bb_cursor_bounds [of "[WriteUInt16LE 0x1234, ReadUInt8]" "[0, 0, 0, 0]" 4
      "bb_run [WriteUInt16LE 0x1234, ReadUInt8] (ByteBuffer_new [0, 0, 0, 0] 4)" "WriteUInt8 7"]
  by (simp add: bb_defs bb_cursor_invariant_def ByteBuffer_new_def)

section \<open>ByteBuffer: all-or-nothing writes\<close>

text \<open>
  C4. For every buffer whose declared capacity lies within its array, and each of the
  four 16- and 32-bit writers: with \<open>writeRemaining() < width\<close> the call returns
  \<open>false\<close> and the buffer is the one before the call (write position and every byte
  unchanged); otherwise it returns \<open>true\<close>, the \<open>width\<close> bytes of the value stand at the
  old write position in the writer's byte order, every other byte is unchanged, and the
  write position has advanced by exactly \<open>width\<close>.
\<close>

theorem bb_write_all_or_nothing:
  assumes "bb_capacity b \<le> length (bb_data b)"
  shows "bb_writeUInt16LE v16 b =
           (if bb_writeRemaining b < 2 then (False, b)
            else (True, b\<lparr>bb_data := take (bb_head b) (bb_data b)
                               @ [ucast v16, ucast (drop_bit 8 v16)]
                               @ drop (bb_head b + 2) (bb_data b),
                           bb_head := bb_head b + 2\<rparr>))
       \<and> bb_writeUInt16BE v16 b =
           (if bb_writeRemaining b < 2 then (False, b)
            else (True, b\<lparr>bb_data := take (bb_head b) (bb_data b)
                               @ [ucast (drop_bit 8 v16), ucast v16]
                               @ drop (bb_head b + 2) (bb_data b),
                           bb_head := bb_head b + 2\<rparr>))
       \<and> bb_writeUInt32LE v32 b =
           (if bb_writeRemaining b < 4 then (False, b)
            else (True, b\<lparr>bb_data := take (bb_head b) (bb_data b)
                               @ [ucast v32, ucast (drop_bit 8 v32),
                                  ucast (drop_bit 16 v32), ucast (drop_bit 24 v32)]
                               @ drop (bb_head b + 4) (bb_data b),
                           bb_head := bb_head b + 4\<rparr>))
       \<and> bb_writeUInt32BE v32 b =
           (if bb_writeRemaining b < 4 then (False, b)
            else (True, b\<lparr>bb_data := take (bb_head b) (bb_data b)
                               @ [ucast (drop_bit 24 v32), ucast (drop_bit 16 v32),
                                  ucast (drop_bit 8 v32), ucast v32]
                               @ drop (bb_head b + 4) (bb_data b),
                           bb_head := bb_head b + 4\<rparr>))"
proof -
  have two: "bb_head b + 2 \<le> length (bb_data b)" if "\<not> bb_writeRemaining b < 2"
    using that assms by (simp add: bb_writeRemaining_def split: if_splits)
  have four: "bb_head b + 4 \<le> length (bb_data b)" if "\<not> bb_writeRemaining b < 4"
    using that assms by (simp add: bb_writeRemaining_def split: if_splits)
  have "bb_writeUInt16LE v16 b =
           (if bb_writeRemaining b < 2 then (False, b)
            else (True, b\<lparr>bb_data := take (bb_head b) (bb_data b)
                               @ [ucast v16, ucast (drop_bit 8 v16)]
                               @ drop (bb_head b + 2) (bb_data b),
                           bb_head := bb_head b + 2\<rparr>))"
    unfolding bb_writeUInt16LE_def ucast_and_FF_16
    using list_update2_splice [OF two] by (cases "bb_writeRemaining b < 2") simp_all
  moreover have "bb_writeUInt16BE v16 b =
           (if bb_writeRemaining b < 2 then (False, b)
            else (True, b\<lparr>bb_data := take (bb_head b) (bb_data b)
                               @ [ucast (drop_bit 8 v16), ucast v16]
                               @ drop (bb_head b + 2) (bb_data b),
                           bb_head := bb_head b + 2\<rparr>))"
    unfolding bb_writeUInt16BE_def ucast_and_FF_16
    using list_update2_splice [OF two] by (cases "bb_writeRemaining b < 2") simp_all
  moreover have "bb_writeUInt32LE v32 b =
           (if bb_writeRemaining b < 4 then (False, b)
            else (True, b\<lparr>bb_data := take (bb_head b) (bb_data b)
                               @ [ucast v32, ucast (drop_bit 8 v32),
                                  ucast (drop_bit 16 v32), ucast (drop_bit 24 v32)]
                               @ drop (bb_head b + 4) (bb_data b),
                           bb_head := bb_head b + 4\<rparr>))"
    unfolding bb_writeUInt32LE_def ucast_and_FF_32
    using list_update4_splice [OF four] by (cases "bb_writeRemaining b < 4") simp_all
  moreover have "bb_writeUInt32BE v32 b =
           (if bb_writeRemaining b < 4 then (False, b)
            else (True, b\<lparr>bb_data := take (bb_head b) (bb_data b)
                               @ [ucast (drop_bit 24 v32), ucast (drop_bit 16 v32),
                                  ucast (drop_bit 8 v32), ucast v32]
                               @ drop (bb_head b + 4) (bb_data b),
                           bb_head := bb_head b + 4\<rparr>))"
    unfolding bb_writeUInt32BE_def ucast_and_FF_32
    using list_update4_splice [OF four] by (cases "bb_writeRemaining b < 4") simp_all
  ultimately show ?thesis by blast
qed

theorem bb_write_all_or_nothing_witness:
  "bb_capacity \<lparr>bb_data = [0, 0, 0], bb_capacity = 3, bb_head = 1, bb_tail = 0\<rparr>
     \<le> length (bb_data \<lparr>bb_data = [0, 0, 0], bb_capacity = 3, bb_head = 1, bb_tail = 0\<rparr>)
   \<and> bb_writeUInt16BE 0xABCD \<lparr>bb_data = [0, 0, 0], bb_capacity = 3, bb_head = 1, bb_tail = 0\<rparr>
       = (True, \<lparr>bb_data = [0, 0xAB, 0xCD], bb_capacity = 3, bb_head = 3, bb_tail = 0\<rparr>)
   \<and> bb_writeUInt32LE 0x12345678 \<lparr>bb_data = [0, 0, 0], bb_capacity = 3, bb_head = 1, bb_tail = 0\<rparr>
       = (False, \<lparr>bb_data = [0, 0, 0], bb_capacity = 3, bb_head = 1, bb_tail = 0\<rparr>)"
  using bb_write_all_or_nothing
    [of "\<lparr>bb_data = [0, 0, 0], bb_capacity = 3, bb_head = 1, bb_tail = 0\<rparr>" "0xABCD" "0x12345678"]
  by (simp add: bb_writeRemaining_def)

section \<open>ByteBuffer: round trip\<close>

text \<open>
  C5. For every 16-bit and every 32-bit value and every buffer with room for it (the
  declared capacity within the array, the read cursor standing at the write position):
  each of \<open>writeUInt16LE\<close>, \<open>writeUInt16BE\<close>, \<open>writeUInt32LE\<close>, \<open>writeUInt32BE\<close>
  succeeds, and the matching reader called next returns the value written. On a fresh
  4-byte buffer, writing \<open>0x11223344\<close> little-endian leaves the bytes
  \<open>[0x44, 0x33, 0x22, 0x11]\<close> and writing \<open>0xDEADBEEF\<close> big-endian leaves
  \<open>[0xDE, 0xAD, 0xBE, 0xEF]\<close>.
\<close>

theorem bb_roundtrip:
  assumes "bb_capacity b \<le> length (bb_data b)"
    and "bb_readPosition b = bb_writePosition b"
  shows "(2 \<le> bb_writeRemaining b \<longrightarrow>
            fst (bb_writeUInt16LE v16 b)
            \<and> fst (bb_readUInt16LE (snd (bb_writeUInt16LE v16 b))) = Some v16
            \<and> fst (bb_writeUInt16BE v16 b)
            \<and> fst (bb_readUInt16BE (snd (bb_writeUInt16BE v16 b))) = Some v16)
       \<and> (4 \<le> bb_writeRemaining b \<longrightarrow>
            fst (bb_writeUInt32LE v32 b)
            \<and> fst (bb_readUInt32LE (snd (bb_writeUInt32LE v32 b))) = Some v32
            \<and> fst (bb_writeUInt32BE v32 b)
            \<and> fst (bb_readUInt32BE (snd (bb_writeUInt32BE v32 b))) = Some v32)
       \<and> (length d = 4 \<longrightarrow>
            bb_data (snd (bb_writeUInt32LE 0x11223344 (ByteBuffer_new d 4)))
              = [0x44, 0x33, 0x22, 0x11]
            \<and> bb_data (snd (bb_writeUInt32BE 0xDEADBEEF (ByteBuffer_new d 4)))
              = [0xDE, 0xAD, 0xBE, 0xEF])"
proof -
  have r16: "fst (bb_writeUInt16LE v16 b)
            \<and> fst (bb_readUInt16LE (snd (bb_writeUInt16LE v16 b))) = Some v16
            \<and> fst (bb_writeUInt16BE v16 b)
            \<and> fst (bb_readUInt16BE (snd (bb_writeUInt16BE v16 b))) = Some v16"
    if "2 \<le> bb_writeRemaining b"
  proof -
    from that assms have "bb_head b + 2 \<le> length (bb_data b)" and "\<not> bb_writeRemaining b < 2"
      by (simp_all add: bb_writeRemaining_def split: if_splits)
    with assms(2) show ?thesis
      by (simp add: bb_writeUInt16LE_def bb_writeUInt16BE_def bb_readUInt16LE_def
          bb_readUInt16BE_def bb_readRemaining_def bb_readPosition_def bb_writePosition_def
          ucast_and_FF_16 bytes16_LE bytes16_BE)
  qed
  have r32: "fst (bb_writeUInt32LE v32 b)
            \<and> fst (bb_readUInt32LE (snd (bb_writeUInt32LE v32 b))) = Some v32
            \<and> fst (bb_writeUInt32BE v32 b)
            \<and> fst (bb_readUInt32BE (snd (bb_writeUInt32BE v32 b))) = Some v32"
    if "4 \<le> bb_writeRemaining b"
  proof -
    from that assms have "bb_head b + 4 \<le> length (bb_data b)" and "\<not> bb_writeRemaining b < 4"
      by (simp_all add: bb_writeRemaining_def split: if_splits)
    with assms(2) show ?thesis
      by (simp add: bb_writeUInt32LE_def bb_writeUInt32BE_def bb_readUInt32LE_def
          bb_readUInt32BE_def bb_readRemaining_def bb_readPosition_def bb_writePosition_def
          ucast_and_FF_32 bytes32_LE bytes32_BE)
  qed
  have ex: "bb_data (snd (bb_writeUInt32LE 0x11223344 (ByteBuffer_new d 4)))
              = [0x44, 0x33, 0x22, 0x11]
            \<and> bb_data (snd (bb_writeUInt32BE 0xDEADBEEF (ByteBuffer_new d 4)))
              = [0xDE, 0xAD, 0xBE, 0xEF]"
    if "length d = 4"
  proof -
    from that obtain a b c e where "d = [a, b, c, e]"
      by (auto simp: length_Suc_conv eval_nat_numeral)
    then show ?thesis
      by (simp add: bb_writeUInt32LE_def bb_writeUInt32BE_def ByteBuffer_new_def
          bb_writeRemaining_def)
  qed
  from r16 r32 ex show ?thesis by blast
qed

theorem bb_roundtrip_witness:
  "bb_capacity (ByteBuffer_new [0, 0, 0, 0] 4) \<le> length (bb_data (ByteBuffer_new [0, 0, 0, 0] 4))
   \<and> bb_readPosition (ByteBuffer_new [0, 0, 0, 0] 4) = bb_writePosition (ByteBuffer_new [0, 0, 0, 0] 4)
   \<and> 2 \<le> bb_writeRemaining (ByteBuffer_new [0, 0, 0, 0] 4)
   \<and> 4 \<le> bb_writeRemaining (ByteBuffer_new [0, 0, 0, 0] 4)
   \<and> length [0, 0, 0, 0 :: u8] = 4
   \<and> fst (bb_readUInt16LE (snd (bb_writeUInt16LE 0x1234 (ByteBuffer_new [0, 0, 0, 0] 4))))
       = Some 0x1234
   \<and> fst (bb_readUInt32BE (snd (bb_writeUInt32BE 0xDEADBEEF (ByteBuffer_new [0, 0, 0, 0] 4))))
       = Some 0xDEADBEEF
   \<and> bb_data (snd (bb_writeUInt32LE 0x11223344 (ByteBuffer_new [0, 0, 0, 0] 4)))
       = [0x44, 0x33, 0x22, 0x11]"
  using bb_roundtrip [of "ByteBuffer_new [0, 0, 0, 0] 4" "0x1234" "0xDEADBEEF" "[0, 0, 0, 0]"]
    bb_roundtrip [of "ByteBuffer_new [0, 0, 0, 0] 4" "0x1234" "0x11223344" "[0, 0, 0, 0]"]
  by (simp add: ByteBuffer_new_def bb_writeRemaining_def bb_readPosition_def
      bb_writePosition_def)

section \<open>MessageBuffer: auxiliary facts\<close>

lemmas mb_defs = mb_beginMessage_def mb_writeByte_def mb_finalizeMessage_def mb_data_of_def
  mb_size_def mb_beginRead_def mb_messageType_def mb_payloadLength_def mb_readByte_def
  mb_readRemaining_def headerSize_def MessageBuffer_new_def

lemma size_t_sub_ge: "b \<le> a \<Longrightarrow> size_t_sub a b = a - b"
  by (simp add: size_t_sub_def)

lemma mb_writeBytes_fits:
  assumes "mb_head m + length vs \<le> mb_capacity m" and "mb_capacity m \<le> length (mb_data m)"
  shows "mb_writeBytes vs m =
           (replicate (length vs) True,
            m\<lparr>mb_data := take (mb_head m) (mb_data m) @ vs
                            @ drop (mb_head m + length vs) (mb_data m),
              mb_head := mb_head m + length vs\<rparr>)"
  using assms
proof (induction vs arbitrary: m)
  case Nil
  then show ?case by simp
next
  case (Cons v vs)
  let ?m1 = "m\<lparr>mb_data := (mb_data m)[mb_head m := v], mb_head := mb_head m + 1\<rparr>"
  from Cons.prems have w: "mb_writeByte v m = (True, ?m1)"
    by (simp add: mb_writeByte_def)
  from Cons.prems have "mb_head ?m1 + length vs \<le> mb_capacity ?m1"
    and "mb_capacity ?m1 \<le> length (mb_data ?m1)"
    by simp_all
  from Cons.IH [OF this] Cons.prems show ?case
    by (simp add: w upd_conv_take_nth_drop take_Suc_conv_app_nth)
qed

lemma mb_readBytes_facts:
  "mb_head (snd (mb_readBytes n m)) = mb_head m
   \<and> mb_data (snd (mb_readBytes n m)) = mb_data m
   \<and> mb_capacity (snd (mb_readBytes n m)) = mb_capacity m
   \<and> mb_tail (snd (mb_readBytes n m)) = (if mb_tail m \<le> mb_head m then min (mb_tail m + n) (mb_head m) else mb_tail m)
   \<and> fst (mb_readBytes n m)
       = map (\<lambda>i. if mb_tail m + i < mb_head m then Some (mb_data m ! (mb_tail m + i)) else None)
           [0..<n]"
proof (induction n arbitrary: m)
  case 0
  then show ?case by simp
next
  case (Suc n)
  have up: "[0..<Suc n] = 0 # map Suc [0..<n]"
    by (simp add: upt_conv_Cons map_Suc_upt del: upt_Suc)
  show ?case
  proof (cases "mb_tail m < mb_head m")
    case True
    then have r: "mb_readByte m = (Some (mb_data m ! mb_tail m), m\<lparr>mb_tail := mb_tail m + 1\<rparr>)"
      by (simp add: mb_readByte_def)
    from True Suc.IH [of "m\<lparr>mb_tail := mb_tail m + 1\<rparr>"] show ?thesis
      by (simp add: r up split_beta o_def del: upt_Suc)
  next
    case False
    then have r: "mb_readByte m = (None, m)"
      by (simp add: mb_readByte_def)
    from False Suc.IH [of m] show ?thesis
      by (simp add: r up split_beta o_def del: upt_Suc)
  qed
qed

lemma mb_beginMessage_writing:
  assumes "mb_beginMessage ty m = (True, m1)" and "mb_capacity m \<le> length (mb_data m)"
  shows "mb_writing m1"
  using assms by (auto simp: mb_beginMessage_def mb_writing_def split: if_splits)

lemma mb_writeByte_writing:
  assumes "mb_writing m"
  shows "mb_writing (snd (mb_writeByte v m))"
  using assms by (auto simp: mb_writeByte_def mb_writing_def)

section \<open>MessageBuffer: beginRead accepts exactly the sizes from 2 to the capacity\<close>

text \<open>
  C7. For every MessageBuffer (of capacity at least 2, and of any other capacity as
  well) and every \<open>size\<close>: \<open>beginRead(size)\<close> returns \<open>false\<close> and leaves the buffer,
  so both cursors, as it was when \<open>size < 2\<close> or \<open>size > capacity\<close>; for
  \<open>2 \<le> size \<le> capacity\<close> it returns \<open>true\<close>, with the write-side cursor at \<open>size\<close> and
  the read cursor at 2, the array and the capacity untouched.
\<close>

theorem mb_beginRead_range:
  "(sz < 2 \<or> mb_capacity m < sz \<longrightarrow> mb_beginRead sz m = (False, m))
   \<and> (2 \<le> sz \<and> sz \<le> mb_capacity m \<longrightarrow>
        fst (mb_beginRead sz m)
        \<and> mb_size (snd (mb_beginRead sz m)) = sz
        \<and> mb_tail (snd (mb_beginRead sz m)) = 2
        \<and> mb_data (snd (mb_beginRead sz m)) = mb_data m
        \<and> mb_capacity (snd (mb_beginRead sz m)) = mb_capacity m)"
  by (simp add: mb_beginRead_def headerSize_def mb_size_def)

theorem mb_beginRead_range_witness:
  "mb_beginRead 1 (MessageBuffer_new [0, 0, 0, 0, 0, 0, 0, 0] 8)
     = (False, MessageBuffer_new [0, 0, 0, 0, 0, 0, 0, 0] 8)
   \<and> mb_beginRead 9 (MessageBuffer_new [0, 0, 0, 0, 0, 0, 0, 0] 8)
     = (False, MessageBuffer_new [0, 0, 0, 0, 0, 0, 0, 0] 8)
   \<and> fst (mb_beginRead 4 (MessageBuffer_new [0, 0, 0, 0, 0, 0, 0, 0] 8))
   \<and> mb_size (snd (mb_beginRead 4 (MessageBuffer_new [0, 0, 0, 0, 0, 0, 0, 0] 8))) = 4
   \<and> mb_tail (snd (mb_beginRead 4 (MessageBuffer_new [0, 0, 0, 0, 0, 0, 0, 0] 8))) = 2"
  using mb_beginRead_range [of 1 "MessageBuffer_new [0, 0, 0, 0, 0, 0, 0, 0] 8"]
    mb_beginRead_range [of 9 "MessageBuffer_new [0, 0, 0, 0, 0, 0, 0, 0] 8"]
    mb_beginRead_range [of 4 "MessageBuffer_new [0, 0, 0, 0, 0, 0, 0, 0] 8"]
  by (simp add: MessageBuffer_new_def)

section \<open>MessageBuffer: framing round trip\<close>

text \<open>
  C2. On a MessageBuffer over any 8-byte array, \<open>beginMessage(0x42)\<close>,
  \<open>writeByte(0x11)\<close>, \<open>writeByte(0x22)\<close>, \<open>finalizeMessage()\<close> all succeed and give
  \<open>size() = 4\<close> with the bytes \<open>[0x42, 2, 0x11, 0x22]\<close> at \<open>data()\<close>; \<open>beginRead(4)\<close> on
  the same array then succeeds with \<open>messageType() = 0x42\<close> and \<open>payloadLength() = 2\<close>,
  two \<open>readByte\<close> calls return \<open>0x11\<close> and \<open>0x22\<close>, and a third fails, changing
  nothing.
\<close>

theorem mb_framing_roundtrip:
  assumes "length d = 8"
  shows "(let m0 = MessageBuffer_new d 8;
              (ok0, m1) = mb_beginMessage 0x42 m0;
              (ok1, m2) = mb_writeByte 0x11 m1;
              (ok2, m3) = mb_writeByte 0x22 m2;
              m4 = mb_finalizeMessage m3;
              (ok3, m5) = mb_beginRead 4 m4;
              (r1, m6) = mb_readByte m5;
              (r2, m7) = mb_readByte m6;
              (r3, m8) = mb_readByte m7
          in ok0 \<and> ok1 \<and> ok2
             \<and> mb_size m4 = 4
             \<and> take (mb_size m4) (mb_data_of m4) = [0x42, 2, 0x11, 0x22]
             \<and> ok3
             \<and> mb_messageType m5 = 0x42
             \<and> mb_payloadLength m5 = 2
             \<and> r1 = Some 0x11 \<and> r2 = Some 0x22
             \<and> r3 = None \<and> m8 = m7)"
proof -
  from assms obtain a0 a1 a2 a3 a4 a5 a6 a7 where "d = [a0, a1, a2, a3, a4, a5, a6, a7]"
    by (auto simp: length_Suc_conv eval_nat_numeral)
  then show ?thesis
    by (simp add: mb_defs size_t_sub_def)
qed

theorem mb_framing_roundtrip_witness:
  "length [0, 0, 0, 0, 0, 0, 0, 0 :: u8] = 8
   \<and> (let m0 = MessageBuffer_new [0, 0, 0, 0, 0, 0, 0, 0] 8;
              (ok0, m1) = mb_beginMessage 0x42 m0;
              (ok1, m2) = mb_writeByte 0x11 m1;
              (ok2, m3) = mb_writeByte 0x22 m2;
              m4 = mb_finalizeMessage m3;
              (ok3, m5) = mb_beginRead 4 m4;
              (r1, m6) = mb_readByte m5;
              (r2, m7) = mb_readByte m6;
              (r3, m8) = mb_readByte m7
          in ok0 \<and> ok1 \<and> ok2
             \<and> mb_size m4 = 4
             \<and> take (mb_size m4) (mb_data_of m4) = [0x42, 2, 0x11, 0x22]
             \<and> ok3
             \<and> mb_messageType m5 = 0x42
             \<and> mb_payloadLength m5 = 2
             \<and> r1 = Some 0x11 \<and> r2 = Some 0x22
             \<and> r3 = None \<and> m8 = m7)"
  using mb_framing_roundtrip [of "[0, 0, 0, 0, 0, 0, 0, 0]"] by simp

section \<open>MessageBuffer: the length clamp\<close>

text \<open>
  C3. For every MessageBuffer in the Writing state, \<open>finalizeMessage()\<close> writes
  \<open>min(writeCursor - 2, 255)\<close> into header byte 1 and nothing else; it has no failure to
  signal. With more than 255 payload bytes \<open>payloadLength()\<close> is exactly 255 afterwards,
  while \<open>size()\<close> and every byte but header byte 1 are as before: on an array with room
  for them, \<open>beginMessage\<close>, more than 255 successful \<open>writeByte\<close> calls (300, say) and
  \<open>finalizeMessage\<close> give \<open>payloadLength() = 255\<close>, \<open>size()\<close> equal to 2 plus the number
  of bytes appended, and all of those bytes in the array.
\<close>

theorem mb_finalize_clamp:
  assumes "mb_writing m"
  shows "mb_finalizeMessage m
           = m\<lparr>mb_data := (mb_data m)[1 := of_nat (min (mb_head m - 2) 255)]\<rparr>
       \<and> unat (mb_payloadLength (mb_finalizeMessage m)) = min (mb_size m - 2) 255
       \<and> (255 < mb_size m - 2 \<longrightarrow> mb_payloadLength (mb_finalizeMessage m) = 255)
       \<and> mb_size (mb_finalizeMessage m) = mb_size m
       \<and> length (mb_data_of (mb_finalizeMessage m)) = length (mb_data_of m)
       \<and> (\<forall>i. i \<noteq> 1 \<longrightarrow> mb_data_of (mb_finalizeMessage m) ! i = mb_data_of m ! i)
       \<and> (255 < length vs \<and> 2 + length vs \<le> c \<and> c \<le> length d \<longrightarrow>
            (let (ok, m1) = mb_beginMessage ty (MessageBuffer_new d c);
                 (oks, m2) = mb_writeBytes vs m1;
                 m3 = mb_finalizeMessage m2
             in ok \<and> oks = replicate (length vs) True
                \<and> mb_payloadLength m3 = 255
                \<and> mb_size m3 = 2 + length vs
                \<and> take (length vs) (drop 2 (mb_data_of m3)) = vs))"
proof -
  from assms have h: "2 \<le> mb_head m" "1 < length (mb_data m)"
    by (simp_all add: mb_writing_def headerSize_def)
  have fin: "mb_finalizeMessage m
           = m\<lparr>mb_data := (mb_data m)[1 := of_nat (min (mb_head m - 2) 255)]\<rparr>"
    using h by (simp add: mb_finalizeMessage_def headerSize_def size_t_sub_ge min_def)
  have pl: "mb_payloadLength (mb_finalizeMessage m) = of_nat (min (mb_head m - 2) 255)"
    using h by (simp add: fin mb_payloadLength_def)
  have un: "unat (mb_payloadLength (mb_finalizeMessage m)) = min (mb_size m - 2) 255"
    unfolding pl mb_size_def by (simp add: unat_of_nat)
  have big: "mb_payloadLength (mb_finalizeMessage m) = 255" if "255 < mb_size m - 2"
    using that unfolding pl mb_size_def by (simp add: min_def)
  have rest: "mb_size (mb_finalizeMessage m) = mb_size m"
    "length (mb_data_of (mb_finalizeMessage m)) = length (mb_data_of m)"
    "\<forall>i. i \<noteq> 1 \<longrightarrow> mb_data_of (mb_finalizeMessage m) ! i = mb_data_of m ! i"
    by (simp_all add: fin mb_size_def mb_data_of_def)
  have ex: "(let (ok, m1) = mb_beginMessage ty (MessageBuffer_new d c);
                 (oks, m2) = mb_writeBytes vs m1;
                 m3 = mb_finalizeMessage m2
             in ok \<and> oks = replicate (length vs) True
                \<and> mb_payloadLength m3 = 255
                \<and> mb_size m3 = 2 + length vs
                \<and> take (length vs) (drop 2 (mb_data_of m3)) = vs)"
    if a: "255 < length vs" "2 + length vs \<le> c" "c \<le> length d"
  proof -
    let ?m1 = "\<lparr>mb_data = d[0 := ty, 1 := 0], mb_capacity = c, mb_head = 2, mb_tail = 0\<rparr>"
    let ?m2 = "\<lparr>mb_data = take 2 (d[0 := ty, 1 := 0]) @ vs @ drop (2 + length vs) d,
                 mb_capacity = c, mb_head = 2 + length vs, mb_tail = 0\<rparr>"
    from a have b: "mb_beginMessage ty (MessageBuffer_new d c) = (True, ?m1)"
      by (simp add: mb_beginMessage_def headerSize_def MessageBuffer_new_def)
    from a have "mb_head ?m1 + length vs \<le> mb_capacity ?m1"
      and "mb_capacity ?m1 \<le> length (mb_data ?m1)"
      by simp_all
    from mb_writeBytes_fits [OF this]
    have w: "mb_writeBytes vs ?m1 = (replicate (length vs) True, ?m2)"
      by simp
    from a have "size_t_sub (mb_head ?m2) headerSize = length vs"
      by (simp add: size_t_sub_ge headerSize_def)
    with a have f: "mb_finalizeMessage ?m2 = ?m2\<lparr>mb_data := (mb_data ?m2)[1 := 255]\<rparr>"
      by (simp add: mb_finalizeMessage_def Let_def)
    from a show ?thesis
      by (simp only: b w f Let_def prod.case)
        (simp add: mb_payloadLength_def mb_size_def mb_data_of_def nth_append
          list_update_append)
  qed
  from fin un big rest ex show ?thesis by blast
qed

theorem mb_finalize_clamp_witness:
  "mb_writing \<lparr>mb_data = [0x77, 0, 1, 2], mb_capacity = 4, mb_head = 4, mb_tail = 0\<rparr>
   \<and> mb_finalizeMessage \<lparr>mb_data = [0x77, 0, 1, 2], mb_capacity = 4, mb_head = 4, mb_tail = 0\<rparr>
       = \<lparr>mb_data = [0x77, 2, 1, 2], mb_capacity = 4, mb_head = 4, mb_tail = 0\<rparr>
   \<and> 255 < length (replicate 300 (0 :: u8))
   \<and> 2 + length (replicate 300 (0 :: u8)) \<le> 302
   \<and> 302 \<le> length (replicate 302 (0 :: u8))
   \<and> mb_payloadLength (mb_finalizeMessage (snd (mb_writeBytes (replicate 300 0)
         (snd (mb_beginMessage 0x77 (MessageBuffer_new (replicate 302 0) 302)))))) = 255
   \<and> mb_size (mb_finalizeMessage (snd (mb_writeBytes (replicate 300 0)
         (snd (mb_beginMessage 0x77 (MessageBuffer_new (replicate 302 0) 302)))))) = 302"
  using mb_finalize_clamp
    [of "\<lparr>mb_data = [0x77, 0, 1, 2], mb_capacity = 4, mb_head = 4, mb_tail = 0\<rparr>"
      "replicate 300 0" 302 "replicate 302 0" "0x77"]
  by (simp add: mb_writing_def headerSize_def split_beta Let_def)

section \<open>MessageBuffer: reading is bounded by the received size\<close>

lemma count_some_upto:
  "length (filter (\<lambda>r. r \<noteq> None) (map (\<lambda>i. if i < j then Some (g i) else None) [0..<n]))
     = min n j"
  by (induction n) auto

lemma mb_beginRead_True:
  assumes "mb_beginRead sz m = (True, m1)"
  shows "m1 = m\<lparr>mb_head := sz, mb_tail := 2\<rparr> \<and> 2 \<le> sz \<and> sz \<le> mb_capacity m"
  using assms by (auto simp: mb_beginRead_def headerSize_def split: if_splits)

text \<open>
  C6. After a successful \<open>beginRead(size)\<close>, and after any number of \<open>readByte\<close> calls
  that follow it, \<open>readByte\<close> succeeds exactly while the read cursor is below \<open>size\<close>:
  it then returns the byte at the read cursor and advances the cursor by one, and
  otherwise it fails and changes nothing. The header's \<open>payloadLength()\<close> plays no part:
  every index \<open>i\<close> with \<open>2 + payloadLength() \<le> i < size\<close> is still read, and with
  \<open>size < 2 + payloadLength()\<close> the call made when the cursor has reached \<open>size\<close> fails.
\<close>

theorem mb_readByte_received_size:
  assumes "mb_beginRead sz m = (True, m1)"
  shows "(let t = snd (mb_readBytes k m1)
          in mb_size t = sz \<and> mb_tail t = min (2 + k) sz \<and> mb_data_of t = mb_data_of m
             \<and> mb_readByte t =
                 (if mb_tail t < sz then (Some (mb_data_of m ! mb_tail t), t\<lparr>mb_tail := mb_tail t + 1\<rparr>)
                  else (None, t)))
       \<and> fst (mb_readBytes k m1)
           = map (\<lambda>i. if 2 + i < sz then Some (mb_data_of m ! (2 + i)) else None) [0..<k]
       \<and> (2 + unat (mb_payloadLength m1) \<le> i \<and> i < sz \<longrightarrow>
            (let t = snd (mb_readBytes (i - 2) m1)
             in mb_tail t = i \<and> mb_readByte t = (Some (mb_data_of m ! i), t\<lparr>mb_tail := i + 1\<rparr>)))
       \<and> (sz < 2 + unat (mb_payloadLength m1) \<longrightarrow>
            (let t = snd (mb_readBytes (sz - 2) m1)
             in mb_tail t = sz \<and> mb_readByte t = (None, t)))"
proof -
  from mb_beginRead_True [OF assms]
  have m1: "mb_head m1 = sz" "mb_tail m1 = 2" "mb_data m1 = mb_data m" "2 \<le> sz"
    by simp_all
  have facts: "mb_head (snd (mb_readBytes n m1)) = sz"
    "mb_data (snd (mb_readBytes n m1)) = mb_data m"
    "mb_tail (snd (mb_readBytes n m1)) = min (2 + n) sz"
    "fst (mb_readBytes n m1)
       = map (\<lambda>i. if 2 + i < sz then Some (mb_data m ! (2 + i)) else None) [0..<n]" for n
    using mb_readBytes_facts [of n m1] m1 by simp_all
  have rd: "mb_readByte t =
      (if mb_tail t < sz then (Some (mb_data m ! mb_tail t), t\<lparr>mb_tail := mb_tail t + 1\<rparr>)
       else (None, t))"
    if "mb_head t = sz" "mb_data t = mb_data m" for t
    using that by (simp add: mb_readByte_def)
  have 1: "(let t = snd (mb_readBytes k m1)
          in mb_size t = sz \<and> mb_tail t = min (2 + k) sz \<and> mb_data_of t = mb_data_of m
             \<and> mb_readByte t =
                 (if mb_tail t < sz then (Some (mb_data_of m ! mb_tail t), t\<lparr>mb_tail := mb_tail t + 1\<rparr>)
                  else (None, t)))"
    using rd [OF facts(1,2), of k] by (simp add: Let_def mb_size_def mb_data_of_def facts)
  have 2: "fst (mb_readBytes k m1)
           = map (\<lambda>i. if 2 + i < sz then Some (mb_data_of m ! (2 + i)) else None) [0..<k]"
    by (simp add: facts mb_data_of_def)
  have 3: "(let t = snd (mb_readBytes (i - 2) m1)
             in mb_tail t = i \<and> mb_readByte t = (Some (mb_data_of m ! i), t\<lparr>mb_tail := i + 1\<rparr>))"
    if "2 + unat (mb_payloadLength m1) \<le> i" "i < sz"
  proof -
    from that have "min (2 + (i - 2)) sz = i" by simp
    with that rd [OF facts(1,2), of "i - 2"] show ?thesis
      by (simp only: Let_def mb_data_of_def facts) simp
  qed
  have 4: "(let t = snd (mb_readBytes (sz - 2) m1)
             in mb_tail t = sz \<and> mb_readByte t = (None, t))"
  proof -
    from m1(4) have "min (2 + (sz - 2)) sz = sz" by simp
    with rd [OF facts(1,2), of "sz - 2"] show ?thesis
      by (simp only: Let_def facts) simp
  qed
  from 1 2 3 4 show ?thesis by blast
qed

text \<open>Unfolding a fixed number of reads.\<close>

lemma mb_readBytes_numeral:
  "mb_readBytes (numeral k) m =
     (let (r, m1) = mb_readByte m; (rs, m2) = mb_readBytes (pred_numeral k) m1
      in (r # rs, m2))"
  by (simp add: numeral_eq_Suc)

theorem mb_readByte_received_size_witness:
  "mb_beginRead 4 (MessageBuffer_new [0x42, 1, 0xAA, 0xBB, 0, 0, 0, 0] 8)
     = (True, \<lparr>mb_data = [0x42, 1, 0xAA, 0xBB, 0, 0, 0, 0], mb_capacity = 8, mb_head = 4, mb_tail = 2\<rparr>)
   \<and> fst (mb_readBytes 3
         \<lparr>mb_data = [0x42, 1, 0xAA, 0xBB, 0, 0, 0, 0], mb_capacity = 8, mb_head = 4, mb_tail = 2\<rparr>)
       = [Some 0xAA, Some 0xBB, None]
   \<and> 2 + unat (mb_payloadLength
         \<lparr>mb_data = [0x42, 1, 0xAA, 0xBB, 0, 0, 0, 0], mb_capacity = 8, mb_head = 4, mb_tail = 2\<rparr>) \<le> 3
   \<and> (3 :: nat) < 4
   \<and> fst (mb_readByte (snd (mb_readBytes (3 - 2)
         \<lparr>mb_data = [0x42, 1, 0xAA, 0xBB, 0, 0, 0, 0], mb_capacity = 8, mb_head = 4, mb_tail = 2\<rparr>)))
       = Some 0xBB
   \<and> mb_beginRead 4 (MessageBuffer_new [0x42, 5, 0xAA, 0xBB, 0, 0, 0, 0] 8)
     = (True, \<lparr>mb_data = [0x42, 5, 0xAA, 0xBB, 0, 0, 0, 0], mb_capacity = 8, mb_head = 4, mb_tail = 2\<rparr>)
   \<and> 4 < 2 + unat (mb_payloadLength
         \<lparr>mb_data = [0x42, 5, 0xAA, 0xBB, 0, 0, 0, 0], mb_capacity = 8, mb_head = 4, mb_tail = 2\<rparr>)
   \<and> fst (mb_readByte (snd (mb_readBytes (4 - 2)
         \<lparr>mb_data = [0x42, 5, 0xAA, 0xBB, 0, 0, 0, 0], mb_capacity = 8, mb_head = 4, mb_tail = 2\<rparr>)))
       = None"
  using mb_readByte_received_size
    [of 4 "MessageBuffer_new [0x42, 1, 0xAA, 0xBB, 0, 0, 0, 0] 8"
      "\<lparr>mb_data = [0x42, 1, 0xAA, 0xBB, 0, 0, 0, 0], mb_capacity = 8, mb_head = 4, mb_tail = 2\<rparr>"
      3 3]
    mb_readByte_received_size
    [of 4 "MessageBuffer_new [0x42, 5, 0xAA, 0xBB, 0, 0, 0, 0] 8"
      "\<lparr>mb_data = [0x42, 5, 0xAA, 0xBB, 0, 0, 0, 0], mb_capacity = 8, mb_head = 4, mb_tail = 2\<rparr>"
      3 3]
  by (simp add: mb_beginRead_def headerSize_def MessageBuffer_new_def mb_payloadLength_def
      mb_data_of_def mb_size_def mb_readByte_def mb_readBytes_numeral)

section \<open>MessageBuffer: readRemaining follows the declared length\<close>

text \<open>
  C10. In every MessageBuffer state \<open>readRemaining()\<close> is
  \<open>max(0, (2 + payloadLength()) - readCursor)\<close>, whatever the write-side cursor (the
  received size) is. After \<open>beginRead(size)\<close> with \<open>size < 2 + payloadLength()\<close>, and
  after any number of \<open>readByte\<close> calls that follow, the number of further \<open>readByte\<close>
  calls that succeed is at most \<open>size - readCursor\<close> (of \<open>n\<close> calls exactly
  \<open>min n (size - readCursor)\<close> succeed), and \<open>readRemaining()\<close> reports more than that.
\<close>

theorem mb_readRemaining_declared:
  "mb_readRemaining m = nat (max 0 (int (2 + unat (mb_payloadLength m)) - int (mb_tail m)))
   \<and> mb_readRemaining (m\<lparr>mb_head := h\<rparr>) = mb_readRemaining m
   \<and> (mb_beginRead sz m = (True, m1) \<and> sz < 2 + unat (mb_payloadLength m) \<longrightarrow>
        (let t = snd (mb_readBytes k m1)
         in length (filter (\<lambda>r. r \<noteq> None) (fst (mb_readBytes n t))) = min n (sz - mb_tail t)
            \<and> sz - mb_tail t < mb_readRemaining t))"
proof -
  have "mb_readRemaining m = 2 + unat (mb_payloadLength m) - mb_tail m"
    by (simp add: mb_readRemaining_def headerSize_def Let_def)
  also have "\<dots> = nat (max 0 (int (2 + unat (mb_payloadLength m)) - int (mb_tail m)))"
    by linarith
  finally have 1: "mb_readRemaining m
      = nat (max 0 (int (2 + unat (mb_payloadLength m)) - int (mb_tail m)))" .
  have 2: "mb_readRemaining (m\<lparr>mb_head := h\<rparr>) = mb_readRemaining m"
    by (simp add: mb_readRemaining_def mb_payloadLength_def Let_def)
  have 3: "(let t = snd (mb_readBytes k m1)
         in length (filter (\<lambda>r. r \<noteq> None) (fst (mb_readBytes n t))) = min n (sz - mb_tail t)
            \<and> sz - mb_tail t < mb_readRemaining t)"
    if b: "mb_beginRead sz m = (True, m1)" and lt: "sz < 2 + unat (mb_payloadLength m)"
  proof -
    let ?t = "snd (mb_readBytes k m1)"
    from mb_beginRead_True [OF b]
    have m1: "mb_head m1 = sz" "mb_tail m1 = 2" "mb_data m1 = mb_data m" "2 \<le> sz"
      by simp_all
    from mb_readBytes_facts [of k m1] m1
    have t: "mb_head ?t = sz" "mb_data ?t = mb_data m" "mb_tail ?t = min (2 + k) sz"
      by simp_all
    then have le: "mb_tail ?t \<le> sz" by simp
    have "fst (mb_readBytes n ?t)
        = map (\<lambda>i. if i < sz - mb_tail ?t then Some (mb_data m ! (mb_tail ?t + i)) else None) [0..<n]"
      using mb_readBytes_facts [of n ?t] by (simp add: t(1,2) less_diff_conv add.commute)
    then have c: "length (filter (\<lambda>r. r \<noteq> None) (fst (mb_readBytes n ?t))) = min n (sz - mb_tail ?t)"
      by (simp only: count_some_upto)
    from lt le have "sz - mb_tail ?t < mb_readRemaining ?t"
      by (simp add: mb_readRemaining_def headerSize_def Let_def mb_payloadLength_def t(2))
    with c show ?thesis by (simp add: Let_def)
  qed
  from 1 2 3 show ?thesis by blast
qed

theorem mb_readRemaining_declared_witness:
  "mb_beginRead 4 (MessageBuffer_new [0x42, 5, 0xAA, 0xBB, 0, 0, 0, 0] 8)
     = (True, \<lparr>mb_data = [0x42, 5, 0xAA, 0xBB, 0, 0, 0, 0], mb_capacity = 8, mb_head = 4, mb_tail = 2\<rparr>)
   \<and> 4 < 2 + unat (mb_payloadLength (MessageBuffer_new [0x42, 5, 0xAA, 0xBB, 0, 0, 0, 0] 8))
   \<and> length (filter (\<lambda>r. r \<noteq> None) (fst (mb_readBytes 5 (snd (mb_readBytes 1
         \<lparr>mb_data = [0x42, 5, 0xAA, 0xBB, 0, 0, 0, 0], mb_capacity = 8, mb_head = 4, mb_tail = 2\<rparr>)))))
       = 1
   \<and> mb_readRemaining (snd (mb_readBytes 1
         \<lparr>mb_data = [0x42, 5, 0xAA, 0xBB, 0, 0, 0, 0], mb_capacity = 8, mb_head = 4, mb_tail = 2\<rparr>))
       = 4"
  using mb_readRemaining_declared
    [of "MessageBuffer_new [0x42, 5, 0xAA, 0xBB, 0, 0, 0, 0] 8" 0 4
      "\<lparr>mb_data = [0x42, 5, 0xAA, 0xBB, 0, 0, 0, 0], mb_capacity = 8, mb_head = 4, mb_tail = 2\<rparr>"
      1 5]
  by (simp add: mb_beginRead_def headerSize_def MessageBuffer_new_def mb_payloadLength_def
      mb_readRemaining_def mb_readByte_def mb_readBytes_numeral)

section \<open>RingBuffer: a bounded FIFO queue\<close>

lemma mod_add_distinct:
  fixes t :: nat
  assumes "i < j" and "j < N"
  shows "(t + i) mod N \<noteq> (t + j) mod N"
proof
  assume "(t + i) mod N = (t + j) mod N"
  then have "(t + j) mod N = (t + i) mod N" by simp
  moreover from assms have "t + i \<le> t + j" by simp
  ultimately have "N dvd (t + j) - (t + i)"
    by (simp only: mod_eq_dvd_iff_nat)
  then have "N dvd j - i" by simp
  with assms show False
    by (auto dest: dvd_imp_le)
qed

lemma rb_contents_length: "length (rb_contents N r) = rb_count r"
  by (simp add: rb_contents_def)

lemma rb_inv_new:
  assumes "length slots = N"
  shows "rb_inv N (RingBuffer_new slots)" and "rb_contents N (RingBuffer_new slots) = []"
  using assms by (simp_all add: rb_inv_def RingBuffer_new_def rb_contents_def)

lemma rb_clear_inv:
  assumes "rb_inv N r"
  shows "rb_inv N (rb_clear r)" and "rb_contents N (rb_clear r) = []"
  using assms by (simp_all add: rb_inv_def rb_clear_def rb_contents_def)

lemma rb_push_full:
  assumes "rb_inv N r" and "\<not> rb_count r < N"
  shows "rb_push N v r = (False, r)"
  using assms by (simp add: rb_push_def rb_inv_def)

lemma rb_push_room:
  fixes v :: 'a
  assumes "rb_inv N r" and "rb_count r < N"
  defines "r' \<equiv> r\<lparr>rb_buf := (rb_buf r)[rb_head r := v],
                   rb_head := (rb_head r + 1) mod N, rb_count := rb_count r + 1\<rparr>"
  shows "rb_push N v r = (True, r')" and "rb_inv N r'"
    and "rb_contents N r' = rb_contents N r @ [v]"
proof -
  from assms(1,2) have N: "0 < N" and len: "length (rb_buf r) = N"
    and hd: "rb_head r = (rb_tail r + rb_count r) mod N" and tl: "rb_tail r < N"
    by (auto simp: rb_inv_def)
  show "rb_push N v r = (True, r')"
    using assms(2) by (simp add: rb_push_def r'_def)
  show "rb_inv N r'"
    using assms(2) N len tl by (simp add: rb_inv_def r'_def hd mod_Suc_eq)
  have old: "(rb_buf r)[rb_head r := v] ! ((rb_tail r + i) mod N) = rb_buf r ! ((rb_tail r + i) mod N)"
    if "i < rb_count r" for i
    using mod_add_distinct [of i "rb_count r" N "rb_tail r"] that assms(2)
    by (simp add: hd)
  have new: "(rb_buf r)[rb_head r := v] ! ((rb_tail r + rb_count r) mod N) = v"
    using N len by (simp add: hd)
  show "rb_contents N r' = rb_contents N r @ [v]"
    by (simp add: rb_contents_def r'_def old new)
qed

lemma rb_pop_empty:
  assumes "rb_count r = 0"
  shows "rb_pop N r = (None, r)"
  using assms by (simp add: rb_pop_def)

lemma rb_pop_some:
  assumes "rb_inv N r" and "0 < rb_count r"
  defines "r' \<equiv> r\<lparr>rb_tail := (rb_tail r + 1) mod N, rb_count := rb_count r - 1\<rparr>"
  shows "rb_pop N r = (Some (hd (rb_contents N r)), r')" and "rb_inv N r'"
    and "rb_contents N r' = tl (rb_contents N r)"
proof -
  from assms(1,2) have N: "0 < N" and cnt: "rb_count r \<le> N"
    and hd: "rb_head r = (rb_tail r + rb_count r) mod N" and tl: "rb_tail r < N"
    and len: "length (rb_buf r) = N"
    by (auto simp: rb_inv_def)
  from assms(2) obtain c where c: "rb_count r = Suc c"
    by (cases "rb_count r") auto
  have up: "[0..<Suc c] = 0 # map Suc [0..<c]"
    by (simp add: upt_conv_Cons map_Suc_upt del: upt_Suc)
  have sh: "((rb_tail r + 1) mod N + i) mod N = (rb_tail r + Suc i) mod N" for i
    by (simp add: mod_add_left_eq)
  show "rb_pop N r = (Some (hd (rb_contents N r)), r')"
    using tl by (simp add: rb_pop_def r'_def rb_contents_def c up del: upt_Suc)
  show "rb_inv N r'"
    using N cnt len by (simp add: rb_inv_def r'_def hd c mod_add_left_eq)
  show "rb_contents N r' = tl (rb_contents N r)"
    unfolding rb_contents_def r'_def
    by (simp add: c up o_def mod_add_left_eq del: upt_Suc)
qed

lemma rb_push_ok:
  assumes "rb_inv N r" and "rb_count r < N"
  shows "fst (rb_push N v r)" and "rb_inv N (snd (rb_push N v r))"
    and "rb_contents N (snd (rb_push N v r)) = rb_contents N r @ [v]"
  by (simp_all only: rb_push_room [OF assms] fst_conv snd_conv)

lemma rb_pop_ok:
  assumes "rb_inv N r" and "0 < rb_count r"
  shows "fst (rb_pop N r) = Some (hd (rb_contents N r))" and "rb_inv N (snd (rb_pop N r))"
    and "rb_contents N (snd (rb_pop N r)) = tl (rb_contents N r)"
  by (simp_all only: rb_pop_some [OF assms] fst_conv snd_conv)

lemma rb_run_simulation:
  assumes "rb_inv N r"
  shows "fst (rb_run N ops r) = fst (queue_run N ops (rb_contents N r))
       \<and> rb_contents N (snd (rb_run N ops r)) = snd (queue_run N ops (rb_contents N r))
       \<and> rb_inv N (snd (rb_run N ops r))"
  using assms
proof (induction ops arbitrary: r)
  case Nil
  then show ?case by simp
next
  case (Cons x ops)
  show ?case
  proof (cases x)
    case (Push v)
    show ?thesis
    proof (cases "rb_count r < N")
      case True
      note p = rb_push_ok [OF Cons.prems True, of v]
      from Cons.IH [OF p(2)] True show ?thesis
        by (simp add: Push p(1) p(3) rb_contents_length split_beta)
    next
      case False
      from Cons.IH [OF Cons.prems] False show ?thesis
        by (simp add: Push rb_push_full [OF Cons.prems False] rb_contents_length split_beta)
    qed
  next
    case Pop
    show ?thesis
    proof (cases "0 < rb_count r")
      case True
      note p = rb_pop_ok [OF Cons.prems True]
      from True have ne: "rb_contents N r \<noteq> []"
        using rb_contents_length [of N r] by auto
      then obtain y ys where ys: "rb_contents N r = y # ys"
        by (cases "rb_contents N r") auto
      from Cons.IH [OF p(2)] show ?thesis
        by (simp add: Pop p(1) p(3) ys split_beta)
    next
      case False
      then have e: "rb_contents N r = []"
        using rb_contents_length [of N r] by auto
      from False have z: "rb_count r = 0" by simp
      from Cons.IH [OF Cons.prems] show ?thesis
        by (simp add: Pop rb_pop_empty [OF z] e split_beta)
    qed
  qed
qed

lemma replicate_3: "replicate 3 x = [x, x, x]"
  by (simp add: numeral_3_eq_3)

text \<open>The list queue on a run of pushes that fit, and on as many pops as it holds.\<close>

lemma queue_run_append:
  "queue_run N (xs @ ys) q =
     (let (r1, q1) = queue_run N xs q; (r2, q2) = queue_run N ys q1 in (r1 @ r2, q2))"
proof (induction xs arbitrary: q)
  case Nil
  then show ?case by simp
next
  case (Cons x xs)
  show ?case
  proof (cases x)
    case (Push v)
    then show ?thesis by (simp add: Cons.IH split_beta Let_def)
  next
    case Pop
    then show ?thesis by (cases q) (simp_all add: Cons.IH split_beta Let_def)
  qed
qed

lemma queue_run_pushes:
  assumes "length q + length vs \<le> N"
  shows "queue_run N (map Push vs) q = (replicate (length vs) (Pushed True), q @ vs)"
  using assms by (induction vs arbitrary: q) simp_all

lemma queue_run_pops:
  "queue_run N (replicate (length q) Pop) q = (map (\<lambda>x. Popped (Some x)) q, [])"
  by (induction q) simp_all

lemma queue_run_fill_drain:
  assumes "length vs = N"
  shows "queue_run N (map Push vs @ [Push x] @ replicate N Pop) []
           = (replicate N (Pushed True) @ [Pushed False] @ map (\<lambda>x. Popped (Some x)) vs, [])"
  using assms queue_run_pushes [of "[]" vs N] queue_run_pops [of N vs]
  by (simp add: queue_run_append Let_def)

text \<open>
  C9. For every ring buffer of capacity \<open>N\<close> in a state reached by pushes and pops (a
  state satisfying \<open>rb_inv\<close>, which the constructor establishes and both operations
  keep): \<open>push\<close> succeeds iff \<open>count < N\<close>, then storing at \<open>head\<close>, advancing \<open>head\<close>
  modulo \<open>N\<close> and incrementing \<open>count\<close>, and otherwise fails leaving the buffer as it
  was; \<open>pop\<close> succeeds iff \<open>count > 0\<close>, then returning the oldest element, advancing
  \<open>tail\<close> modulo \<open>N\<close> and decrementing \<open>count\<close>, and otherwise fails leaving the buffer
  as it was. A successful push appends to the held queue and a successful pop removes
  its front, so every sequence of pushes and pops returns exactly what the bounded FIFO
  queue on lists returns. In particular \<open>N\<close> pushes on a new buffer succeed, one more
  fails, and \<open>N\<close> pops then return the values in push order and leave the buffer empty;
  and for capacity 3, push A, B, C, pop (A), push D (succeeds, full again), then three
  pops return B, C, D and the buffer is empty.
\<close>

theorem rb_fifo:
  assumes "rb_inv N r"
  shows "rb_push N v r =
           (if rb_count r < N
            then (True, r\<lparr>rb_buf := (rb_buf r)[rb_head r := v],
                           rb_head := (rb_head r + 1) mod N,
                           rb_count := rb_count r + 1\<rparr>)
            else (False, r))
       \<and> rb_pop N r =
           (if 0 < rb_count r
            then (Some (hd (rb_contents N r)),
                  r\<lparr>rb_tail := (rb_tail r + 1) mod N, rb_count := rb_count r - 1\<rparr>)
            else (None, r))
       \<and> rb_inv N (snd (rb_push N v r)) \<and> rb_inv N (snd (rb_pop N r))
       \<and> rb_size r = length (rb_contents N r)
       \<and> (rb_count r < N \<longrightarrow> rb_contents N (snd (rb_push N v r)) = rb_contents N r @ [v])
       \<and> (0 < rb_count r \<longrightarrow> rb_contents N (snd (rb_pop N r)) = tl (rb_contents N r))
       \<and> fst (rb_run N ops r) = fst (queue_run N ops (rb_contents N r))
       \<and> rb_contents N (snd (rb_run N ops r)) = snd (queue_run N ops (rb_contents N r))
       \<and> (length slots = N \<and> length vs = N \<longrightarrow>
            rb_inv N (RingBuffer_new slots)
            \<and> fst (rb_run N (map Push vs @ [Push x] @ replicate N Pop) (RingBuffer_new slots))
                = replicate N (Pushed True) @ [Pushed False] @ map (\<lambda>x. Popped (Some x)) vs
            \<and> rb_empty (snd (rb_run N (map Push vs @ [Push x] @ replicate N Pop)
                  (RingBuffer_new slots))))
       \<and> (length slots3 = 3 \<longrightarrow>
            fst (rb_run 3 [Push A, Push B, Push C, Pop, Push D, Pop, Pop, Pop]
                  (RingBuffer_new slots3))
              = [Pushed True, Pushed True, Pushed True, Popped (Some A), Pushed True,
                 Popped (Some B), Popped (Some C), Popped (Some D)]
            \<and> rb_full 3 (snd (rb_run 3 [Push A, Push B, Push C, Pop, Push D]
                  (RingBuffer_new slots3)))
            \<and> rb_empty (snd (rb_run 3 [Push A, Push B, Push C, Pop, Push D, Pop, Pop, Pop]
                  (RingBuffer_new slots3))))"
proof -
  have push: "rb_push N v r =
           (if rb_count r < N
            then (True, r\<lparr>rb_buf := (rb_buf r)[rb_head r := v],
                           rb_head := (rb_head r + 1) mod N,
                           rb_count := rb_count r + 1\<rparr>)
            else (False, r))"
    using assms by (auto simp: rb_push_def rb_inv_def)
  have pop: "rb_pop N r =
           (if 0 < rb_count r
            then (Some (hd (rb_contents N r)),
                  r\<lparr>rb_tail := (rb_tail r + 1) mod N, rb_count := rb_count r - 1\<rparr>)
            else (None, r))"
    using rb_pop_some(1) [OF assms] rb_pop_empty [of r N] by (cases "0 < rb_count r") simp_all
  have inv_push: "rb_inv N (snd (rb_push N v r))"
    using rb_push_ok(2) [OF assms] rb_push_full [OF assms] assms
    by (cases "rb_count r < N") simp_all
  have inv_pop: "rb_inv N (snd (rb_pop N r))"
    using rb_pop_ok(2) [OF assms] rb_pop_empty [of r N] assms
    by (cases "0 < rb_count r") simp_all
  have sz: "rb_size r = length (rb_contents N r)"
    by (simp add: rb_size_def rb_contents_length)
  have c_push: "rb_count r < N \<longrightarrow> rb_contents N (snd (rb_push N v r)) = rb_contents N r @ [v]"
    using rb_push_ok(3) [OF assms] by blast
  have c_pop: "0 < rb_count r \<longrightarrow> rb_contents N (snd (rb_pop N r)) = tl (rb_contents N r)"
    using rb_pop_ok(3) [OF assms] by blast
  note sim = rb_run_simulation [OF assms, of ops]
  have fill: "rb_inv N (RingBuffer_new slots)
            \<and> fst (rb_run N (map Push vs @ [Push x] @ replicate N Pop) (RingBuffer_new slots))
                = replicate N (Pushed True) @ [Pushed False] @ map (\<lambda>x. Popped (Some x)) vs
            \<and> rb_empty (snd (rb_run N (map Push vs @ [Push x] @ replicate N Pop)
                  (RingBuffer_new slots)))"
    if l: "length slots = N" "length vs = N"
  proof -
    let ?ops = "map Push vs @ [Push x] @ replicate N Pop"
    note i = rb_inv_new [OF l(1)]
    note s = rb_run_simulation [OF i(1), of ?ops]
    from s have "length (rb_contents N (snd (rb_run N ?ops (RingBuffer_new slots)))) = 0"
      by (simp only: i(2) queue_run_fill_drain [OF l(2)] snd_conv list.size)
    then have "rb_empty (snd (rb_run N ?ops (RingBuffer_new slots)))"
      by (simp only: rb_contents_length rb_empty_def)
    moreover from s
    have "fst (rb_run N ?ops (RingBuffer_new slots))
        = replicate N (Pushed True) @ [Pushed False] @ map (\<lambda>x. Popped (Some x)) vs"
      by (simp only: i(2) queue_run_fill_drain [OF l(2)] fst_conv)
    ultimately show ?thesis using i(1) by blast
  qed
  have wrap: "fst (rb_run 3 [Push A, Push B, Push C, Pop, Push D, Pop, Pop, Pop]
                  (RingBuffer_new slots3))
              = [Pushed True, Pushed True, Pushed True, Popped (Some A), Pushed True,
                 Popped (Some B), Popped (Some C), Popped (Some D)]
            \<and> rb_full 3 (snd (rb_run 3 [Push A, Push B, Push C, Pop, Push D]
                  (RingBuffer_new slots3)))
            \<and> rb_empty (snd (rb_run 3 [Push A, Push B, Push C, Pop, Push D, Pop, Pop, Pop]
                  (RingBuffer_new slots3)))"
    if "length slots3 = 3"
  proof -
    from that obtain s0 s1 s2 where "slots3 = [s0, s1, s2]"
      by (auto simp: length_Suc_conv eval_nat_numeral)
    then show ?thesis
      by (simp add: RingBuffer_new_def rb_push_def rb_pop_def rb_full_def rb_empty_def)
  qed
  from push pop inv_push inv_pop sz c_push c_pop sim fill wrap show ?thesis
    by blast
qed

theorem rb_fifo_witness:
  "rb_inv 3 \<lparr>rb_buf = [1, 2, 3 :: nat], rb_head = 0, rb_tail = 1, rb_count = 2\<rparr>
   \<and> rb_push 3 4 \<lparr>rb_buf = [1, 2, 3 :: nat], rb_head = 0, rb_tail = 1, rb_count = 2\<rparr>
       = (True, \<lparr>rb_buf = [4, 2, 3], rb_head = 1, rb_tail = 1, rb_count = 3\<rparr>)
   \<and> rb_pop 3 \<lparr>rb_buf = [1, 2, 3 :: nat], rb_head = 0, rb_tail = 1, rb_count = 2\<rparr>
       = (Some 2, \<lparr>rb_buf = [1, 2, 3], rb_head = 0, rb_tail = 2, rb_count = 1\<rparr>)
   \<and> rb_contents 3 (snd (rb_push 3 4
         \<lparr>rb_buf = [1, 2, 3 :: nat], rb_head = 0, rb_tail = 1, rb_count = 2\<rparr>)) = [2, 3, 4]
   \<and> rb_contents 3 (snd (rb_pop 3
         \<lparr>rb_buf = [1, 2, 3 :: nat], rb_head = 0, rb_tail = 1, rb_count = 2\<rparr>)) = [3]
   \<and> length [0, 0, 0 :: nat] = 3 \<and> length [7, 8, 9 :: nat] = 3
   \<and> fst (rb_run 3 (map Push [7, 8, 9] @ [Push 10] @ replicate 3 Pop)
         (RingBuffer_new [0, 0, 0 :: nat]))
       = [Pushed True, Pushed True, Pushed True, Pushed False,
          Popped (Some 7), Popped (Some 8), Popped (Some 9)]
   \<and> fst (rb_run 3 [Push 1, Push 2, Push 3, Pop, Push 4, Pop, Pop, Pop]
         (RingBuffer_new [0, 0, 0 :: nat]))
       = [Pushed True, Pushed True, Pushed True, Popped (Some 1), Pushed True,
          Popped (Some 2), Popped (Some 3), Popped (Some 4)]
   \<and> rb_empty (snd (rb_run 3 [Push 1, Push 2, Push 3, Pop, Push 4, Pop, Pop, Pop]
         (RingBuffer_new [0, 0, 0 :: nat])))"
proof -
  let ?R = "\<lparr>rb_buf = [1, 2, 3 :: nat], rb_head = 0, rb_tail = 1, rb_count = 2\<rparr>"
  have inv: "rb_inv 3 ?R"
    by (simp add: rb_inv_def)
  have up: "[0..<3] = [0, 1, 2]" "[0..<2] = [0, 1]" "[0..<1] = [0]"
    by (simp_all add: upt_rec)
  note t = rb_fifo [OF inv, of 4 "[]" "[0, 0, 0 :: nat]" "[7, 8, 9]" 10
      "[0, 0, 0 :: nat]" 1 2 3 4]
  from t have 1: "rb_push 3 4 ?R
       = (True, \<lparr>rb_buf = [4, 2, 3], rb_head = 1, rb_tail = 1, rb_count = 3\<rparr>)"
    by simp
  from t have 2: "rb_pop 3 ?R
       = (Some 2, \<lparr>rb_buf = [1, 2, 3], rb_head = 0, rb_tail = 2, rb_count = 1\<rparr>)"
    by (simp add: rb_contents_def up)
  from t have 3: "rb_contents 3 (snd (rb_push 3 4 ?R)) = [2, 3, 4]"
    by (simp add: rb_contents_def up)
  from t have 4: "rb_contents 3 (snd (rb_pop 3 ?R)) = [3]"
    by (simp add: rb_contents_def up)
  from t have 5: "fst (rb_run 3 (map Push [7, 8, 9] @ [Push 10] @ replicate 3 Pop)
         (RingBuffer_new [0, 0, 0 :: nat]))
       = [Pushed True, Pushed True, Pushed True, Pushed False,
          Popped (Some 7), Popped (Some 8), Popped (Some 9)]"
    by (simp add: replicate_3)
  from t have 6: "fst (rb_run 3 [Push 1, Push 2, Push 3, Pop, Push 4, Pop, Pop, Pop]
         (RingBuffer_new [0, 0, 0 :: nat]))
       = [Pushed True, Pushed True, Pushed True, Popped (Some 1), Pushed True,
          Popped (Some 2), Popped (Some 3), Popped (Some 4)]"
    and 7: "rb_empty (snd (rb_run 3 [Push 1, Push 2, Push 3, Pop, Push 4, Pop, Pop, Pop]
         (RingBuffer_new [0, 0, 0 :: nat])))"
    by simp_all
  from inv 1 2 3 4 5 6 7 show ?thesis by simp
qed

end
